theory Spec2Isabelle
  imports Main "HOL-Library.Word"
begin

unbundle bit_operations_syntax

section \<open>Common.hpp: machine types, faults and constants\<close>

text \<open>
  \<open>size_t\<close> is taken as an unsigned 64-bit integer and \<open>int\<close> as a signed 32-bit
  integer (the LP64 data model of the \<open>#else\<close> branch of the \<open>PAGE_ID\<close> typedef).
  A pointer is a 64-bit address, \<open>nullptr\<close> is address 0.  Assertions are compiled in
  (no \<open>NDEBUG\<close>): a failed \<open>assert\<close> ends the run with \<open>AssertFailed\<close>.  A read or
  write through \<open>nullptr\<close> has no defined behaviour in C++; the model ends the run
  there with \<open>NullDeref\<close>, so that it is never mistaken for a normal return.
\<close>

type_synonym size_t = "64 word"
type_synonym c_int = "32 word"
type_synonym addr = "64 word"

datatype fault = AssertFailed | NullDeref | UndefinedShift | OutOfFuel

definition nullptr :: addr where
  "nullptr = 0"

definition MAX_BYTES :: size_t where
  "MAX_BYTES = 256 * 1024"

definition NFREELIST :: size_t where
  "NFREELIST = 208"

section \<open>SizeClass\<close>

text \<open>\<open>_RoundUp\<close>: \<open>(bytes + alignNum - 1) & ~(alignNum - 1)\<close>.\<close>

definition u_RoundUp :: "size_t \<Rightarrow> size_t \<Rightarrow> size_t" where
  "u_RoundUp bytes alignNum = (bytes + alignNum - 1) AND NOT (alignNum - 1)"

definition RoundUp :: "size_t \<Rightarrow> fault + size_t" where
  "RoundUp sz =
     (if sz \<le> 128 then Inr (u_RoundUp sz 8)
      else if sz \<le> 1024 then Inr (u_RoundUp sz 16)
      else if sz \<le> 8 * 1024 then Inr (u_RoundUp sz 128)
      else if sz \<le> 64 * 1024 then Inr (u_RoundUp sz 1024)
      else if sz \<le> 256 * 1024 then Inr (u_RoundUp sz (8 * 1024))
      else Inl AssertFailed)"

text \<open>
  \<open>_Index\<close>: \<open>(bytes + (1 << align_shift) - 1) >> align_shift - 1\<close>.  In C++ the
  binary \<open>-\<close> binds tighter than \<open>>>\<close>, so the shift amount is \<open>align_shift - 1\<close>.
  \<open>1 << align_shift\<close> is computed in \<open>int\<close> and converted to \<open>size_t\<close> by the
  addition; a shift of an \<open>int\<close> by 31 or more has no defined value and is a fault
  of the model, as is a shift of a \<open>size_t\<close> by 64 or more.
\<close>

definition u_Index :: "size_t \<Rightarrow> size_t \<Rightarrow> fault + size_t" where
  "u_Index bytes align_shift =
     (if 31 \<le> align_shift \<or> 64 \<le> align_shift - 1 then Inl UndefinedShift
      else Inr (drop_bit (unat (align_shift - 1))
                  (bytes + scast (push_bit (unat align_shift) (1 :: c_int)) - 1)))"

definition group_array :: "c_int list" where
  "group_array = [16, 56, 56, 56]"

definition plus_int :: "fault + size_t \<Rightarrow> c_int \<Rightarrow> fault + size_t" where
  "plus_int r k = (case r of Inl e \<Rightarrow> Inl e | Inr v \<Rightarrow> Inr (v + scast k))"

definition Index :: "size_t \<Rightarrow> fault + size_t" where
  "Index bytes =
     (if bytes \<le> 128 then u_Index bytes 3
      else if bytes \<le> 1024 then
        plus_int (u_Index (bytes - 128) 4) (group_array ! 0)
      else if bytes \<le> 8 * 1024 then
        plus_int (plus_int (u_Index (bytes - 1024) 7) (group_array ! 0)) (group_array ! 1)
      else if bytes \<le> 64 * 1024 then
        plus_int (plus_int (plus_int (u_Index (bytes - 8 * 1024) 10)
          (group_array ! 0)) (group_array ! 1)) (group_array ! 2)
      else if bytes \<le> 256 * 1024 then
        plus_int (plus_int (plus_int (plus_int (u_Index (bytes - 64 * 1024) 13)
          (group_array ! 0)) (group_array ! 1)) (group_array ! 2)) (group_array ! 3)
      else Inl AssertFailed)"

text \<open>
  \<open>NumMoveSize\<close>: the quotient is a \<open>size_t\<close>, narrowed to \<open>int\<close> on
  initialisation of \<open>num\<close>, compared as a signed value, and widened back on return.
\<close>

definition NumMoveSize :: "size_t \<Rightarrow> fault + size_t" where
  "NumMoveSize sz =
     (if \<not> sz > 0 then Inl AssertFailed
      else let num = (ucast (MAX_BYTES div sz) :: c_int);
               num = (if num <s 2 then 2 else num);
               num = (if 512 <s num then 512 else num)
           in Inr (scast num))"

text \<open>
  The tier alignment the specification's fragmentation bound speaks of
  (\<open>alignmentForTier\<close>): 8, 16, 128, 1024 and 8192 bytes for the five size tiers.
\<close>

definition alignmentForTier :: "size_t \<Rightarrow> size_t" where
  "alignmentForTier sz =
     (if sz \<le> 128 then 8
      else if sz \<le> 1024 then 16
      else if sz \<le> 8 * 1024 then 128
      else if sz \<le> 64 * 1024 then 1024
      else 8 * 1024)"

section \<open>FreeList\<close>

text \<open>
  A free object is identified by its address; \<open>NextObj(obj)\<close> is the first machine
  word of the object, read and written through the pointer.  The memory of the free
  objects is a store from object addresses to that word.  Objects are taken not to
  overlap: a write to one object's first word leaves every other object's word alone.
\<close>

type_synonym obj_store = "addr \<Rightarrow> addr"

record FreeList =
  fl_head :: addr
  fl_maxSize :: size_t

text \<open>The default member initialisers: \<open>_head = nullptr\<close>, \<open>_maxSize = 1\<close>.\<close>

definition FreeList_new :: FreeList where
  "FreeList_new = \<lparr>fl_head = nullptr, fl_maxSize = 1\<rparr>"

definition Push :: "addr \<Rightarrow> FreeList \<times> obj_store \<Rightarrow> fault + FreeList \<times> obj_store" where
  "Push obj s =
     (case s of (fl, m) \<Rightarrow>
        if obj = nullptr then Inl NullDeref
        else Inr (fl\<lparr>fl_head := obj\<rparr>, m(obj := fl_head fl)))"

definition PushRange ::
  "addr \<Rightarrow> addr \<Rightarrow> FreeList \<times> obj_store \<Rightarrow> fault + FreeList \<times> obj_store" where
  "PushRange start end s =
     (case s of (fl, m) \<Rightarrow>
        if end = nullptr then Inl NullDeref
        else Inr (fl\<lparr>fl_head := start\<rparr>, m(end := fl_head fl)))"

text \<open>
  \<open>Pop\<close> has no check of its own: \<open>obj = _head; _head = NextObj(_head); return obj\<close>.
  On an empty list \<open>NextObj\<close> reads through \<open>nullptr\<close>.
\<close>

definition Pop :: "FreeList \<times> obj_store \<Rightarrow> fault + addr \<times> (FreeList \<times> obj_store)" where
  "Pop s =
     (case s of (fl, m) \<Rightarrow>
        let obj = fl_head fl in
        if fl_head fl = nullptr then Inl NullDeref
        else Inr (obj, (fl\<lparr>fl_head := m (fl_head fl)\<rparr>, m)))"

definition Empty :: "FreeList \<Rightarrow> bool" where
  "Empty fl = (fl_head fl = nullptr)"

definition MaxSize :: "FreeList \<Rightarrow> size_t" where
  "MaxSize fl = fl_maxSize fl"

text \<open>Pushing a list of objects one after the other, and popping \<open>n\<close> times in a row.\<close>

fun PushAll :: "addr list \<Rightarrow> FreeList \<times> obj_store \<Rightarrow> fault + FreeList \<times> obj_store" where
  "PushAll [] s = Inr s"
| "PushAll (x # xs) s = (case Push x s of Inl e \<Rightarrow> Inl e | Inr s' \<Rightarrow> PushAll xs s')"

fun PopN :: "nat \<Rightarrow> FreeList \<times> obj_store \<Rightarrow> fault + addr list \<times> (FreeList \<times> obj_store)" where
  "PopN 0 s = Inr ([], s)"
| "PopN (Suc n) s =
     (case Pop s of
        Inl e \<Rightarrow> Inl e
      | Inr (x, s') \<Rightarrow>
          (case PopN n s' of Inl e \<Rightarrow> Inl e | Inr (xs, s'') \<Rightarrow> Inr (x # xs, s'')))"

text \<open>The chain of objects reachable from a head pointer, ending at \<open>nullptr\<close>.\<close>

fun lseg :: "obj_store \<Rightarrow> addr \<Rightarrow> addr list \<Rightarrow> bool" where
  "lseg m p [] = (p = nullptr)"
| "lseg m p (x # xs) = (p = x \<and> x \<noteq> nullptr \<and> lseg m (m x) xs)"

text \<open>A store in which every object's first word is \<open>nullptr\<close>, for concrete runs.\<close>

definition null_objs :: obj_store where
  "null_objs = (\<lambda>p. nullptr)"

section \<open>Span and SpanList\<close>

type_synonym PAGE_ID = "64 word"

record Span =
  sp_pageId :: PAGE_ID
  sp_nPage :: size_t
  sp_next :: addr
  sp_prev :: addr
  sp_freeList :: addr
  sp_useCount :: size_t
  sp_objSize :: size_t

text \<open>
  Spans live in a store from addresses to \<open>Span\<close> values; the list links through it.
  The bucket lock \<open>_mutex\<close> plays no part in a single-threaded run and is left out.
\<close>

type_synonym span_store = "addr \<Rightarrow> Span"

record SpanList =
  sl_head :: addr

text \<open>
  The constructor: \<open>p\<close> is the address \<open>new Span\<close> returned.  The default member
  initialisers set \<open>_next\<close>, \<open>_prev\<close>, \<open>_freeList\<close> to \<open>nullptr\<close> and \<open>_useCount\<close> to 0;
  \<open>_pageId\<close>, \<open>_nPage\<close> and \<open>_objSize\<close> keep whatever the memory held.  Then both
  links of the sentinel are pointed at the sentinel.  \<open>new\<close> never returns \<open>nullptr\<close>;
  the first branch only keeps the writes through \<open>p\<close> away from address 0.
\<close>

definition SpanList_new :: "addr \<Rightarrow> span_store \<Rightarrow> fault + SpanList \<times> span_store" where
  "SpanList_new p H =
     (if p = nullptr then Inl NullDeref
      else let H0 = H(p := (H p)\<lparr>sp_next := nullptr, sp_prev := nullptr,
                                 sp_freeList := nullptr, sp_useCount := 0\<rparr>);
               H1 = H0(p := (H0 p)\<lparr>sp_next := p\<rparr>);
               H2 = H1(p := (H1 p)\<lparr>sp_prev := p\<rparr>)
           in Inr (\<lparr>sl_head = p\<rparr>, H2))"

definition Begin :: "SpanList \<Rightarrow> span_store \<Rightarrow> addr" where
  "Begin l H = sp_next (H (sl_head l))"

definition End :: "SpanList \<Rightarrow> addr" where
  "End l = sl_head l"

definition Insert :: "SpanList \<Rightarrow> addr \<Rightarrow> addr \<Rightarrow> span_store \<Rightarrow> fault + span_store" where
  "Insert l cur newspan H =
     (if cur = nullptr then Inl AssertFailed
      else if newspan = nullptr then Inl AssertFailed
      else let prev = sp_prev (H cur) in
        if prev = nullptr then Inl NullDeref
        else let H1 = H(prev := (H prev)\<lparr>sp_next := newspan\<rparr>);
                 H2 = H1(newspan := (H1 newspan)\<lparr>sp_prev := prev\<rparr>);
                 H3 = H2(newspan := (H2 newspan)\<lparr>sp_next := cur\<rparr>);
                 H4 = H3(cur := (H3 cur)\<lparr>sp_prev := newspan\<rparr>)
             in Inr H4)"

definition Erase :: "SpanList \<Rightarrow> addr \<Rightarrow> span_store \<Rightarrow> fault + span_store" where
  "Erase l cur H =
     (if cur = nullptr then Inl AssertFailed
      else if cur = sl_head l then Inl AssertFailed
      else let prev = sp_prev (H cur); next = sp_next (H cur) in
        if prev = nullptr then Inl NullDeref
        else let H1 = H(prev := (H prev)\<lparr>sp_next := next\<rparr>) in
          if next = nullptr then Inl NullDeref
          else Inr (H1(next := (H1 next)\<lparr>sp_prev := prev\<rparr>)))"

definition SpanList_Empty :: "SpanList \<Rightarrow> span_store \<Rightarrow> bool" where
  "SpanList_Empty l H = (sp_next (H (sl_head l)) = sl_head l)"

subsection \<open>Sequences of list operations and traversals\<close>

datatype list_op = OpInsert addr addr | OpErase addr

fun apply_op :: "SpanList \<Rightarrow> list_op \<Rightarrow> span_store \<Rightarrow> fault + span_store" where
  "apply_op l (OpInsert cur newspan) H = Insert l cur newspan H"
| "apply_op l (OpErase cur) H = Erase l cur H"

fun run_ops :: "SpanList \<Rightarrow> list_op list \<Rightarrow> span_store \<Rightarrow> fault + span_store" where
  "run_ops l [] H = Inr H"
| "run_ops l (a # as) H =
     (case apply_op l a H of Inl e \<Rightarrow> Inl e | Inr H' \<Rightarrow> run_ops l as H')"

text \<open>A freshly constructed list at address \<open>p\<close>, then the operations.\<close>

definition run_fresh :: "addr \<Rightarrow> list_op list \<Rightarrow> span_store \<Rightarrow> fault + SpanList \<times> span_store" where
  "run_fresh p ops H =
     (case SpanList_new p H of
        Inl e \<Rightarrow> Inl e
      | Inr (l, H0) \<Rightarrow> (case run_ops l ops H0 of Inl e \<Rightarrow> Inl e | Inr H' \<Rightarrow> Inr (l, H')))"

text \<open>
  The iteration idiom of the list's users: \<open>for (cur = Begin(); cur != End(); cur =
  cur->_next)\<close>, and its mirror image along \<open>_prev\<close>.  The walk collects the spans it
  visits; it has a budget of steps, so that a walk that never comes back to the
  sentinel is the result \<open>OutOfFuel\<close>.
\<close>

fun walk :: "(addr \<Rightarrow> addr) \<Rightarrow> addr \<Rightarrow> nat \<Rightarrow> addr \<Rightarrow> fault + addr list" where
  "walk link stop 0 cur = (if cur = stop then Inr [] else Inl OutOfFuel)"
| "walk link stop (Suc n) cur =
     (if cur = stop then Inr []
      else if cur = nullptr then Inl NullDeref
      else (case walk link stop n (link cur) of
              Inl e \<Rightarrow> Inl e
            | Inr xs \<Rightarrow> Inr (cur # xs)))"

definition traverse_next :: "SpanList \<Rightarrow> span_store \<Rightarrow> nat \<Rightarrow> fault + addr list" where
  "traverse_next l H fuel = walk (\<lambda>p. sp_next (H p)) (End l) fuel (Begin l H)"

definition traverse_prev :: "SpanList \<Rightarrow> span_store \<Rightarrow> nat \<Rightarrow> fault + addr list" where
  "traverse_prev l H fuel = walk (\<lambda>p. sp_prev (H p)) (End l) fuel (sp_prev (H (End l)))"

text \<open>
  The live spans, in list order, as the history of operations determines them:
  \<open>Insert(cur, newspan)\<close> puts \<open>newspan\<close> right before \<open>cur\<close> (at the back when \<open>cur\<close>
  is the sentinel), \<open>Erase(cur)\<close> takes \<open>cur\<close> out.
\<close>

fun insert_before :: "addr \<Rightarrow> addr \<Rightarrow> addr list \<Rightarrow> addr list" where
  "insert_before cur newspan [] = [newspan]"
| "insert_before cur newspan (x # xs) =
     (if x = cur then newspan # x # xs else x # insert_before cur newspan xs)"

fun live_step :: "list_op \<Rightarrow> addr list \<Rightarrow> addr list" where
  "live_step (OpInsert cur newspan) L = insert_before cur newspan L"
| "live_step (OpErase cur) L = remove1 cur L"

fun live_after :: "addr list \<Rightarrow> list_op list \<Rightarrow> addr list" where
  "live_after L [] = L"
| "live_after L (a # as) = live_after (live_step a L) as"

text \<open>
  The two side conditions the invariant is stated with: an \<open>Insert\<close> position is
  inside the list (a live span or the sentinel), and \<open>Erase\<close> is never applied to
  the sentinel.
\<close>

fun stated_ok :: "addr \<Rightarrow> addr list \<Rightarrow> list_op \<Rightarrow> bool" where
  "stated_ok h L (OpInsert cur newspan) = (cur = h \<or> cur \<in> set L)"
| "stated_ok h L (OpErase cur) = (cur \<noteq> h)"

fun stated_seq :: "addr \<Rightarrow> addr list \<Rightarrow> list_op list \<Rightarrow> bool" where
  "stated_seq h L [] = True"
| "stated_seq h L (a # as) = (stated_ok h L a \<and> stated_seq h (live_step a L) as)"

text \<open>
  The side conditions under which the list stays well linked: in addition, an
  inserted span is a real span (not \<open>nullptr\<close>, not the sentinel) that is not linked
  into the list already, and an erased span is one of the live spans.
\<close>

fun linked_ok :: "addr \<Rightarrow> addr list \<Rightarrow> list_op \<Rightarrow> bool" where
  "linked_ok h L (OpInsert cur newspan) =
     ((cur = h \<or> cur \<in> set L) \<and> newspan \<noteq> nullptr \<and> newspan \<noteq> h \<and> newspan \<notin> set L)"
| "linked_ok h L (OpErase cur) = (cur \<noteq> h \<and> cur \<in> set L)"

fun linked_seq :: "addr \<Rightarrow> addr list \<Rightarrow> list_op list \<Rightarrow> bool" where
  "linked_seq h L [] = True"
| "linked_seq h L (a # as) = (linked_ok h L a \<and> linked_seq h (live_step a L) as)"

text \<open>
  Adjacent nodes of a sequence point at each other: each node's \<open>_next\<close> is its
  successor and each successor's \<open>_prev\<close> is the node.
\<close>

fun path :: "span_store \<Rightarrow> addr list \<Rightarrow> bool" where
  "path H (a # b # rest) = (sp_next (H a) = b \<and> sp_prev (H b) = a \<and> path H (b # rest))"
| "path H [a] = True"
| "path H [] = True"

definition well_linked :: "span_store \<Rightarrow> addr \<Rightarrow> addr list \<Rightarrow> bool" where
  "well_linked H h L =
     (h \<noteq> nullptr \<and> nullptr \<notin> set L \<and> h \<notin> set L \<and> distinct L \<and> path H (h # L @ [h]))"

text \<open>
  What a user of the list sees after a run: the forward walk, the backward walk
  (both with the given budget of steps) and \<open>Empty()\<close>.
\<close>

definition observe ::
  "addr \<Rightarrow> list_op list \<Rightarrow> span_store \<Rightarrow> nat \<Rightarrow>
     fault + (fault + addr list) \<times> (fault + addr list) \<times> bool" where
  "observe p ops H fuel =
     (case run_fresh p ops H of
        Inl e \<Rightarrow> Inl e
      | Inr (l, H') \<Rightarrow>
          Inr (traverse_next l H' fuel, traverse_prev l H' fuel, SpanList_Empty l H'))"

text \<open>A store of spans with every field zero, for concrete runs.\<close>

definition zero_span :: Span where
  "zero_span = \<lparr>sp_pageId = 0, sp_nPage = 0, sp_next = nullptr, sp_prev = nullptr,
                 sp_freeList = nullptr, sp_useCount = 0, sp_objSize = 0\<rparr>"

definition zero_store :: span_store where
  "zero_store = (\<lambda>p. zero_span)"

section \<open>Properties of SizeClass\<close>

subsection \<open>Rounding with a mask\<close>

lemma and_not_mask_diff: "w AND NOT (mask n) = w - take_bit n w" for w :: "'a::len word"
proof -
  have "NOT w AND take_bit n w = 0"
    by (rule bit_eqI) (auto simp: bit_simps)
  then have "w - take_bit n w = w AND NOT (take_bit n w)"
    by (rule disjunctive_diff_eq_and_not)
  also have "\<dots> = w AND NOT (mask n)"
    by (rule bit_eqI) (auto simp: bit_simps)
  finally show ?thesis by simp
qed

lemma unat_and_not_mask: "unat (w AND NOT (mask n)) = (unat w div 2 ^ n) * 2 ^ n"
  for w :: "'a::len word"
proof -
  have le: "take_bit n w \<le> w"
    by (simp add: word_le_nat_alt unsigned_take_bit_eq)
  have "unat (w - take_bit n w) = unat w - unat (take_bit n w)"
    using le by (simp add: unat_sub)
  also have "\<dots> = unat w - unat w mod 2 ^ n"
    unfolding unsigned_take_bit_eq by (simp only: take_bit_eq_mod)
  also have "\<dots> = (unat w div 2 ^ n) * 2 ^ n"
    by (simp add: minus_mod_eq_div_mult)
  finally show ?thesis by (simp add: and_not_mask_diff)
qed

lemma unat_mask64: "k \<le> 13 \<Longrightarrow> unat (mask k :: size_t) = 2 ^ k - 1"
proof -
  assume k: "k \<le> 13"
  have "(2::nat) ^ k \<le> 2 ^ 13" using k by (rule power_increasing) simp
  then have lt: "(2::nat) ^ k - 1 < 2 ^ 64" by simp
  have "unat (mask k :: size_t) = unat (of_nat (mask k) :: size_t)"
    by (simp only: of_nat_mask_eq)
  also have "\<dots> = mask k mod 2 ^ 64"
    by (simp add: unat_of_nat)
  also have "\<dots> = 2 ^ k - 1"
    using lt by (simp add: mask_eq_exp_minus_1)
  finally show ?thesis .
qed

lemma unat_u_RoundUp:
  assumes "unat bytes \<le> 262144" and "k \<le> 13"
  shows "unat (u_RoundUp bytes (2 ^ k)) = ((unat bytes + 2 ^ k - 1) div 2 ^ k) * 2 ^ k"
proof -
  have k: "(2::nat) ^ k \<le> 2 ^ 13" using assms(2) by (rule power_increasing) simp
  have "(2 :: size_t) ^ k - 1 = mask k" by (simp add: mask_eq_exp_minus_1)
  then have eq: "u_RoundUp bytes (2 ^ k) = (bytes + mask k) AND NOT (mask k)"
    by (simp add: u_RoundUp_def add_diff_eq [symmetric])
  have "unat (bytes + mask k) = unat bytes + (2 ^ k - 1)"
    using assms(1) k by (simp add: unat_word_ariths unat_mask64 [OF assms(2)])
  then show ?thesis using k by (simp add: eq unat_and_not_mask)
qed

subsection \<open>Rounding up to a multiple, on the naturals\<close>

lemma round_ge: "0 < a \<Longrightarrow> x \<le> ((x + a - 1) div a) * (a::nat)"
proof -
  assume a: "0 < a"
  have "(x + a - 1) mod a < a" using a by simp
  moreover have "((x + a - 1) div a) * a + (x + a - 1) mod a = x + a - 1" by simp
  ultimately show ?thesis by linarith
qed

lemma round_lt: "0 < a \<Longrightarrow> ((x + a - 1) div a) * (a::nat) < x + a"
proof -
  assume a: "0 < a"
  have "((x + a - 1) div a) * a + (x + a - 1) mod a = x + a - 1" by simp
  then show ?thesis using a by linarith
qed

lemma round_le_bound:
  assumes "0 < a" and "a dvd b" and "x \<le> b"
  shows "((x + a - 1) div a) * (a::nat) \<le> b"
proof -
  from assms(2) obtain m where b: "b = a * m" ..
  have "x + a - 1 < a * (m + 1)" using assms(1,3) b by simp
  then have "(x + a - 1) div a < m + 1"
    using assms(1) by (simp add: less_mult_imp_div_less mult.commute)
  then show ?thesis using b by simp
qed

lemma round_fix:
  assumes "0 < a" and "a dvd x"
  shows "((x + a - 1) div a) * (a::nat) = x"
proof -
  let ?r = "((x + a - 1) div a) * a"
  have ge: "x \<le> ?r" using assms(1) by (rule round_ge)
  have lt: "?r < x + a" using assms(1) by (rule round_lt)
  have "a dvd ?r - x" using assms(2) by (simp add: dvd_diff_nat)
  moreover have "?r - x < a" using ge lt by linarith
  ultimately have "?r - x = 0" using nat_dvd_not_less by (cases "?r - x = 0") auto
  then show ?thesis using ge by linarith
qed

subsection \<open>The conversions of NumMoveSize\<close>

lemma sint_ucast_small:
  assumes "uint (q :: size_t) \<le> 262144"
  shows "sint (ucast q :: c_int) = uint q"
proof -
  have nn: "0 \<le> uint q" by (rule uint_nonnegative)
  have "- (2 ^ 31) \<le> (0::int)" by simp
  then have "- (2 ^ 31) \<le> uint q" using nn by (rule order_trans)
  moreover have "uint q < 2 ^ 31" using assms by simp
  ultimately have "signed_take_bit 31 (uint q) = uint q"
    by (simp add: signed_take_bit_int_eq_self)
  then show ?thesis by (simp add: signed_ucast_eq)
qed

lemma uint_scast_small:
  assumes "0 \<le> sint (w :: c_int)"
  shows "uint (scast w :: size_t) = sint w"
proof -
  have "sint w < 2 ^ 31" using sint_less [of w] by simp
  then have "sint w < 2 ^ 64" by simp
  then have tb: "take_bit 64 (sint w) = sint w"
    using assms by (simp only: take_bit_int_eq_self)
  have "uint (scast w :: size_t) = uint (word_of_int (sint w) :: size_t)"
    by (simp only: scast_eq)
  also have "\<dots> = take_bit 64 (sint w)"
    by (simp only: uint_word_of_int_eq) simp
  finally show ?thesis using tb by simp
qed

lemma uint_NumMoveSize:
  assumes "sz \<noteq> 0"
  shows "\<exists>n. NumMoveSize sz = Inr n \<and> uint n = min 512 (max 2 (262144 div uint sz))"
proof -
  let ?q = "MAX_BYTES div sz"
  have pos: "0 < uint sz" using assms by (simp add: word_neq_0_conv word_less_def)
  have q: "uint ?q = 262144 div uint sz"
    by (simp add: uint_div MAX_BYTES_def)
  have "262144 div uint sz \<le> 262144 div 1"
    using pos by (intro zdiv_mono2) simp_all
  then have qle: "uint ?q \<le> 262144" using q by simp
  have s0: "sint (ucast ?q :: c_int) = 262144 div uint sz"
    using sint_ucast_small [OF qle] q by simp
  show ?thesis
    using assms s0
    by (simp add: NumMoveSize_def Let_def word_sless_alt uint_scast_small word_neq_0_conv)
qed

subsection \<open>RoundUp, tier by tier\<close>

lemma tier_round:
  assumes k: "k \<le> 13" and hi: "unat sz \<le> b" and b: "b \<le> 262144" and d: "2 ^ k dvd b"
  shows "unat sz \<le> unat (u_RoundUp sz (2 ^ k))"
    and "unat (u_RoundUp sz (2 ^ k)) < unat sz + 2 ^ k"
    and "unat (u_RoundUp sz (2 ^ k)) \<le> b"
    and "u_RoundUp (u_RoundUp sz (2 ^ k)) (2 ^ k) = u_RoundUp sz (2 ^ k)"
proof -
  let ?r = "u_RoundUp sz (2 ^ k)"
  have sz: "unat sz \<le> 262144" using hi b by simp
  have r: "unat ?r = ((unat sz + 2 ^ k - 1) div 2 ^ k) * 2 ^ k"
    using sz k by (rule unat_u_RoundUp)
  show "unat sz \<le> unat ?r" unfolding r by (rule round_ge) simp
  show "unat ?r < unat sz + 2 ^ k" unfolding r by (rule round_lt) simp
  show rb: "unat ?r \<le> b" unfolding r using _ d hi by (rule round_le_bound) simp
  have rr: "unat ?r \<le> 262144" using rb b by simp
  have dv: "2 ^ k dvd unat ?r" unfolding r by simp
  have "unat (u_RoundUp ?r (2 ^ k)) = ((unat ?r + 2 ^ k - 1) div 2 ^ k) * 2 ^ k"
    using rr k by (rule unat_u_RoundUp)
  also have "\<dots> = unat ?r" using _ dv by (rule round_fix) simp
  finally show "u_RoundUp ?r (2 ^ k) = ?r" by (simp only: word_unat_eq_iff)
qed

lemma tier_round_word:
  assumes k: "k \<le> 13" and hi: "unat sz \<le> b" and b: "b \<le> 262144" and d: "2 ^ k dvd b"
  shows "sz \<le> u_RoundUp sz (2 ^ k)"
    and "unat (u_RoundUp sz (2 ^ k) - sz) < 2 ^ k"
proof -
  let ?r = "u_RoundUp sz (2 ^ k)"
  have ge: "unat sz \<le> unat ?r" using assms by (rule tier_round(1))
  have lt: "unat ?r < unat sz + 2 ^ k" using assms by (rule tier_round(2))
  show le: "sz \<le> ?r" using ge by (simp only: word_le_nat_alt)
  have "unat (?r - sz) = unat ?r - unat sz" using le by (rule unat_sub)
  then show "unat (?r - sz) < 2 ^ k" using ge lt by linarith
qed

lemmas round8 = tier_round [where k = 3 and b = 128, simplified]
lemmas round16 = tier_round [where k = 4 and b = 1024, simplified]
lemmas round128 = tier_round [where k = 7 and b = 8192, simplified]
lemmas round1024 = tier_round [where k = 10 and b = 65536, simplified]
lemmas round8192 = tier_round [where k = 13 and b = 262144, simplified]
lemmas roundw8 = tier_round_word [where k = 3 and b = 128, simplified]
lemmas roundw16 = tier_round_word [where k = 4 and b = 1024, simplified]
lemmas roundw128 = tier_round_word [where k = 7 and b = 8192, simplified]
lemmas roundw1024 = tier_round_word [where k = 10 and b = 65536, simplified]
lemmas roundw8192 = tier_round_word [where k = 13 and b = 262144, simplified]

lemma tier_cases:
  fixes sz :: size_t
  assumes "sz \<le> 262144"
  obtains (t1) "sz \<le> 128"
    | (t2) "\<not> sz \<le> 128" "sz \<le> 1024"
    | (t3) "\<not> sz \<le> 128" "\<not> sz \<le> 1024" "sz \<le> 8192"
    | (t4) "\<not> sz \<le> 128" "\<not> sz \<le> 1024" "\<not> sz \<le> 8192" "sz \<le> 65536"
    | (t5) "\<not> sz \<le> 128" "\<not> sz \<le> 1024" "\<not> sz \<le> 8192" "\<not> sz \<le> 65536" "sz \<le> 262144"
  using assms by blast

text \<open>
  C4.  For every request size in \<open>[1, 262144]\<close>, \<open>RoundUp\<close> returns a size that is at
  least the request and exceeds it by less than the alignment of the request's tier
  (8 up to 128 bytes, 16 up to 1024, 128 up to 8192, 1024 up to 65536, 8192 up to 262144).
\<close>

theorem RoundUp_fragmentation_bound:
  assumes "1 \<le> sz" and "sz \<le> 262144"
  shows "\<exists>r. RoundUp sz = Inr r \<and> sz \<le> r \<and> r - sz < alignmentForTier sz"
  using assms(2)
proof (cases rule: tier_cases)
  case t1
  then have u: "unat sz \<le> 128" by (simp add: word_le_nat_alt)
  show ?thesis using t1 roundw8 [OF u]
    by (simp add: RoundUp_def alignmentForTier_def word_less_nat_alt)
next
  case t2
  then have u: "unat sz \<le> 1024" by (simp add: word_le_nat_alt)
  show ?thesis using t2 roundw16 [OF u]
    by (simp add: RoundUp_def alignmentForTier_def word_less_nat_alt)
next
  case t3
  then have u: "unat sz \<le> 8192" by (simp add: word_le_nat_alt)
  show ?thesis using t3 roundw128 [OF u]
    by (simp add: RoundUp_def alignmentForTier_def word_less_nat_alt)
next
  case t4
  then have u: "unat sz \<le> 65536" by (simp add: word_le_nat_alt)
  show ?thesis using t4 roundw1024 [OF u]
    by (simp add: RoundUp_def alignmentForTier_def word_less_nat_alt)
next
  case t5
  then have u: "unat sz \<le> 262144" by (simp add: word_le_nat_alt)
  show ?thesis using t5 roundw8192 [OF u]
    by (simp add: RoundUp_def alignmentForTier_def word_less_nat_alt)
qed

theorem RoundUp_fragmentation_bound_witness:
  "(1::size_t) \<le> 129 \<and> (129::size_t) \<le> 262144 \<and> RoundUp 129 = Inr 144 \<and>
   (\<exists>r. RoundUp 129 = Inr r \<and> 129 \<le> r \<and> r - 129 < alignmentForTier 129)"
proof -
  have h1: "(1::size_t) \<le> 129" by simp
  have h2: "(129::size_t) \<le> 262144" by simp
  have v: "RoundUp 129 = Inr 144" by (simp add: RoundUp_def u_RoundUp_def)
  show ?thesis using h1 h2 v RoundUp_fragmentation_bound [OF h1 h2] by blast
qed

lemma stay_above:
  fixes sz r :: size_t
  shows "\<not> sz \<le> numeral b \<Longrightarrow> unat sz \<le> unat r \<Longrightarrow> \<not> r \<le> numeral b"
  by (simp only: word_le_nat_alt)

text \<open>
  C9.  \<open>RoundUp\<close> is idempotent on \<open>[1, 262144]\<close>: the rounded size is returned, and
  rounding it again returns the same size.
\<close>

theorem RoundUp_idempotent:
  assumes "1 \<le> sz" and "sz \<le> 262144"
  shows "\<exists>r. RoundUp sz = Inr r \<and> RoundUp r = Inr r"
  using assms(2)
proof (cases rule: tier_cases)
  case t1
  then have u: "unat sz \<le> 128" by (simp add: word_le_nat_alt)
  have "u_RoundUp sz 8 \<le> 128" using round8(3) [OF u] by (simp add: word_le_nat_alt)
  then show ?thesis using t1 round8(4) [OF u] by (simp add: RoundUp_def)
next
  case t2
  then have u: "unat sz \<le> 1024" by (simp add: word_le_nat_alt)
  have "u_RoundUp sz 16 \<le> 1024" using round16(3) [OF u] by (simp add: word_le_nat_alt)
  moreover have "\<not> u_RoundUp sz 16 \<le> 128"
    using t2(1) round16(1) [OF u] by (rule stay_above)
  ultimately show ?thesis using t2 round16(4) [OF u] by (simp add: RoundUp_def)
next
  case t3
  then have u: "unat sz \<le> 8192" by (simp add: word_le_nat_alt)
  have "u_RoundUp sz 128 \<le> 8192" using round128(3) [OF u] by (simp add: word_le_nat_alt)
  moreover have "\<not> u_RoundUp sz 128 \<le> 128"
    using t3(1) round128(1) [OF u] by (rule stay_above)
  moreover have "\<not> u_RoundUp sz 128 \<le> 1024"
    using t3(2) round128(1) [OF u] by (rule stay_above)
  ultimately show ?thesis using t3 round128(4) [OF u] by (simp add: RoundUp_def)
next
  case t4
  then have u: "unat sz \<le> 65536" by (simp add: word_le_nat_alt)
  have "u_RoundUp sz 1024 \<le> 65536" using round1024(3) [OF u] by (simp add: word_le_nat_alt)
  moreover have "\<not> u_RoundUp sz 1024 \<le> 128"
    using t4(1) round1024(1) [OF u] by (rule stay_above)
  moreover have "\<not> u_RoundUp sz 1024 \<le> 1024"
    using t4(2) round1024(1) [OF u] by (rule stay_above)
  moreover have "\<not> u_RoundUp sz 1024 \<le> 8192"
    using t4(3) round1024(1) [OF u] by (rule stay_above)
  ultimately show ?thesis using t4 round1024(4) [OF u] by (simp add: RoundUp_def)
next
  case t5
  then have u: "unat sz \<le> 262144" by (simp add: word_le_nat_alt)
  have "u_RoundUp sz 8192 \<le> 262144" using round8192(3) [OF u] by (simp add: word_le_nat_alt)
  moreover have "\<not> u_RoundUp sz 8192 \<le> 128"
    using t5(1) round8192(1) [OF u] by (rule stay_above)
  moreover have "\<not> u_RoundUp sz 8192 \<le> 1024"
    using t5(2) round8192(1) [OF u] by (rule stay_above)
  moreover have "\<not> u_RoundUp sz 8192 \<le> 8192"
    using t5(3) round8192(1) [OF u] by (rule stay_above)
  moreover have "\<not> u_RoundUp sz 8192 \<le> 65536"
    using t5(4) round8192(1) [OF u] by (rule stay_above)
  ultimately show ?thesis using t5 round8192(4) [OF u] by (simp add: RoundUp_def)
qed

theorem RoundUp_idempotent_witness:
  "(1::size_t) \<le> 1025 \<and> (1025::size_t) \<le> 262144 \<and> RoundUp 1025 = Inr 1152 \<and>
   (\<exists>r. RoundUp 1025 = Inr r \<and> RoundUp r = Inr r)"
proof -
  have h1: "(1::size_t) \<le> 1025" by simp
  have h2: "(1025::size_t) \<le> 262144" by simp
  have v: "RoundUp 1025 = Inr 1152" by (simp add: RoundUp_def u_RoundUp_def)
  show ?thesis using h1 h2 v RoundUp_idempotent [OF h1 h2] by blast
qed

subsection \<open>NumMoveSize\<close>

lemma NumMoveSize_range:
  assumes "1 \<le> sz"
  shows "\<exists>n. NumMoveSize sz = Inr n \<and> 2 \<le> n \<and> n \<le> 512"
proof -
  have "sz \<noteq> 0" using assms by auto
  then obtain n where n: "NumMoveSize sz = Inr n"
    and u: "uint n = min 512 (max 2 (262144 div uint sz))"
    using uint_NumMoveSize by blast
  have "2 \<le> n" "n \<le> 512" using u by (simp_all add: word_le_def)
  then show ?thesis using n by simp
qed

lemma NumMoveSize_antimono:
  assumes "1 \<le> s1" and "s1 \<le> s2"
  shows "\<exists>n1 n2. NumMoveSize s1 = Inr n1 \<and> NumMoveSize s2 = Inr n2 \<and> n2 \<le> n1"
proof -
  have z1: "s1 \<noteq> 0" using assms(1) by auto
  have z2: "s2 \<noteq> 0" using assms z1 by auto
  obtain n1 where n1: "NumMoveSize s1 = Inr n1"
    and u1: "uint n1 = min 512 (max 2 (262144 div uint s1))"
    using uint_NumMoveSize [OF z1] by blast
  obtain n2 where n2: "NumMoveSize s2 = Inr n2"
    and u2: "uint n2 = min 512 (max 2 (262144 div uint s2))"
    using uint_NumMoveSize [OF z2] by blast
  have pos: "0 < uint s1" using z1 by (simp add: word_neq_0_conv word_less_def)
  have le: "uint s1 \<le> uint s2" using assms(2) by (simp add: word_le_def)
  have "262144 div uint s2 \<le> 262144 div uint s1"
    using _ pos le by (rule zdiv_mono2) simp
  then have "uint n2 \<le> uint n1" unfolding u1 u2 by simp
  then have "n2 \<le> n1" by (simp add: word_le_def)
  then show ?thesis using n1 n2 by simp
qed

text \<open>
  C6.  For every object size in \<open>[1, 262144]\<close>, \<open>NumMoveSize\<close> returns a count between 2
  and 512; a larger size never gets a larger count; and at size 512 the quotient
  \<open>262144 / 512\<close> is 512 and \<open>NumMoveSize\<close> returns exactly 512.
\<close>

theorem NumMoveSize_bounds:
  "(\<forall>sz. 1 \<le> sz \<and> sz \<le> 262144 \<longrightarrow>
      (\<exists>n. NumMoveSize sz = Inr n \<and> 2 \<le> n \<and> n \<le> 512)) \<and>
   (\<forall>s1 s2. 1 \<le> s1 \<and> s1 \<le> s2 \<and> s2 \<le> 262144 \<longrightarrow>
      (\<exists>n1 n2. NumMoveSize s1 = Inr n1 \<and> NumMoveSize s2 = Inr n2 \<and> n2 \<le> n1)) \<and>
   NumMoveSize 512 = Inr 512 \<and> MAX_BYTES div 512 = 512"
proof (intro conjI allI impI)
  fix sz :: size_t
  assume "1 \<le> sz \<and> sz \<le> 262144"
  then show "\<exists>n. NumMoveSize sz = Inr n \<and> 2 \<le> n \<and> n \<le> 512"
    using NumMoveSize_range by blast
next
  fix s1 s2 :: size_t
  assume "1 \<le> s1 \<and> s1 \<le> s2 \<and> s2 \<le> 262144"
  then show "\<exists>n1 n2. NumMoveSize s1 = Inr n1 \<and> NumMoveSize s2 = Inr n2 \<and> n2 \<le> n1"
    using NumMoveSize_antimono by blast
next
  show "NumMoveSize 512 = Inr 512" by (simp add: NumMoveSize_def MAX_BYTES_def)
next
  show "MAX_BYTES div 512 = 512" by (simp add: MAX_BYTES_def)
qed

theorem NumMoveSize_bounds_witness:
  "(1::size_t) \<le> 512 \<and> (512::size_t) \<le> 1024 \<and> (1024::size_t) \<le> 262144 \<and>
   (\<exists>n. NumMoveSize 512 = Inr n \<and> 2 \<le> n \<and> n \<le> 512) \<and>
   (\<exists>n1 n2. NumMoveSize 512 = Inr n1 \<and> NumMoveSize 1024 = Inr n2 \<and> n2 \<le> n1)"
proof -
  have h: "(1::size_t) \<le> 512" "(512::size_t) \<le> 1024" "(1024::size_t) \<le> 262144"
    "(512::size_t) \<le> 262144" by simp_all
  have a: "\<exists>n. NumMoveSize 512 = Inr n \<and> 2 \<le> n \<and> n \<le> 512"
    using NumMoveSize_bounds h by blast
  have b: "\<exists>n1 n2. NumMoveSize 512 = Inr n1 \<and> NumMoveSize 1024 = Inr n2 \<and> n2 \<le> n1"
    using NumMoveSize_bounds h by blast
  show ?thesis using h a b by blast
qed

subsection \<open>Index at concrete sizes\<close>

text \<open>
  C1.  \<open>Index\<close> is meant to land in \<open>[0, 208)\<close> and to fill that range.  With the shift
  by \<open>align_shift - 1\<close> it does neither: size 65536 is sent to bucket 241, beyond
  \<open>NFREELIST = 208\<close>, and the smallest size 1 is sent to bucket 2, so that bucket 0
  is not the image of the smallest size class.
\<close>

theorem Index_out_of_range:
  "Index 65536 = Inr 241 \<and> \<not> (241 :: size_t) < NFREELIST \<and> Index 1 = Inr 2"
  by (simp add: Index_def u_Index_def plus_int_def group_array_def NFREELIST_def)

text \<open>
  C2.  \<open>Index\<close> is meant to be monotonic.  Across the first tier boundary it is not:
  size 128 is sent to bucket 33 and the larger size 129 to bucket 18.
\<close>

theorem Index_not_monotonic: "Index 128 = Inr 33 \<and> Index 129 = Inr 18"
  by (simp add: Index_def u_Index_def plus_int_def group_array_def)

text \<open>
  C3.  For the request size 7, \<open>RoundUp\<close> returns 8, and \<open>Index\<close> returns bucket 3
  where the comment on \<open>Index\<close> promises bucket 0.
\<close>

theorem RoundUp_Index_7: "RoundUp 7 = Inr 8 \<and> Index 7 = Inr 3"
  by (simp add: RoundUp_def u_RoundUp_def Index_def u_Index_def)

section \<open>Properties of FreeList\<close>

lemma lseg_upd: "x \<notin> set ys \<Longrightarrow> lseg (m(x := v)) p ys = lseg m p ys"
  by (induction ys arbitrary: p) auto

lemma lseg_Empty: "lseg m (fl_head fl) zs \<Longrightarrow> Empty fl \<longleftrightarrow> zs = []"
  by (cases zs) (auto simp: Empty_def)

lemma PushAll_lseg:
  assumes "lseg m (fl_head fl) ys" and "distinct xs" and "nullptr \<notin> set xs"
    and "set xs \<inter> set ys = {}"
  shows "\<exists>fl' m'. PushAll xs (fl, m) = Inr (fl', m') \<and> lseg m' (fl_head fl') (rev xs @ ys)"
  using assms
proof (induction xs arbitrary: fl m ys)
  case Nil
  then show ?case by simp
next
  case (Cons x xs)
  let ?fl = "fl\<lparr>fl_head := x\<rparr>" and ?m = "m(x := fl_head fl)"
  have x: "x \<noteq> nullptr" "x \<notin> set ys" "x \<notin> set xs" using Cons.prems by auto
  have push: "Push x (fl, m) = Inr (?fl, ?m)" using x by (simp add: Push_def)
  have "lseg ?m (fl_head ?fl) (x # ys)"
    using Cons.prems(1) x by (simp add: lseg_upd)
  moreover have "distinct xs" "nullptr \<notin> set xs" "set xs \<inter> set (x # ys) = {}"
    using Cons.prems x by auto
  ultimately obtain fl' m' where "PushAll xs (?fl, ?m) = Inr (fl', m')"
    and "lseg m' (fl_head fl') (rev xs @ x # ys)"
    using Cons.IH by blast
  then show ?case using push by simp
qed

lemma PopN_lseg:
  assumes "lseg m (fl_head fl) zs" and "k \<le> length zs"
  shows "\<exists>fl'. PopN k (fl, m) = Inr (take k zs, (fl', m)) \<and> lseg m (fl_head fl') (drop k zs)"
  using assms
proof (induction k arbitrary: fl zs)
  case 0
  then show ?case by simp
next
  case (Suc k)
  then obtain z zs' where zs: "zs = z # zs'" by (cases zs) auto
  let ?fl = "fl\<lparr>fl_head := m z\<rparr>"
  have h: "fl_head fl = z" "z \<noteq> nullptr" "lseg m (m z) zs'"
    using Suc.prems(1) zs by auto
  have pop: "Pop (fl, m) = Inr (z, (?fl, m))" using h by (simp add: Pop_def)
  have "lseg m (fl_head ?fl) zs'" "k \<le> length zs'" using h Suc.prems(2) zs by auto
  then obtain fl' where "PopN k (?fl, m) = Inr (take k zs', (fl', m))"
    and "lseg m (fl_head fl') (drop k zs')"
    using Suc.IH by blast
  then show ?case using pop zs by simp
qed

lemma fresh_lseg: "lseg m (fl_head FreeList_new) []"
  by (simp add: FreeList_new_def)

text \<open>
  C7.  FreeList is LIFO.  Starting from a fresh FreeList and any object memory, pushing
  distinct (non-null) objects \<open>xs\<close> one by one succeeds; the list is empty before the
  first push and after no other prefix of the pushes; popping \<open>k\<close> times then returns
  the last \<open>k\<close> pushed objects, most recent first, so that \<open>length xs\<close> pops return
  exactly \<open>rev xs\<close>; and the list is empty again after all of them are popped, and not
  before.
\<close>

theorem FreeList_LIFO:
  assumes "distinct xs" and "nullptr \<notin> set xs"
  shows "Empty FreeList_new \<and>
    (\<forall>j \<le> length xs. \<exists>s. PushAll (take j xs) (FreeList_new, m) = Inr s \<and>
        (Empty (fst s) \<longleftrightarrow> j = 0)) \<and>
    (\<exists>s. PushAll xs (FreeList_new, m) = Inr s \<and>
       (\<forall>k \<le> length xs. \<exists>s'. PopN k s = Inr (take k (rev xs), s') \<and>
           (Empty (fst s') \<longleftrightarrow> k = length xs)))"
proof (intro conjI allI impI)
  show "Empty FreeList_new" by (simp add: Empty_def FreeList_new_def)
next
  fix j assume j: "j \<le> length xs"
  have "distinct (take j xs)" "nullptr \<notin> set (take j xs)"
    using assms by (auto dest: in_set_takeD)
  then obtain fl' m' where p: "PushAll (take j xs) (FreeList_new, m) = Inr (fl', m')"
    and l: "lseg m' (fl_head fl') (rev (take j xs) @ [])"
    using PushAll_lseg [OF fresh_lseg, of "take j xs" m] by auto
  have "Empty fl' \<longleftrightarrow> j = 0" using lseg_Empty [OF l] j by auto
  then show "\<exists>s. PushAll (take j xs) (FreeList_new, m) = Inr s \<and> (Empty (fst s) \<longleftrightarrow> j = 0)"
    using p by simp
next
  obtain fl' m' where p: "PushAll xs (FreeList_new, m) = Inr (fl', m')"
    and l: "lseg m' (fl_head fl') (rev xs @ [])"
    using PushAll_lseg [OF fresh_lseg assms, of m] by auto
  have "\<forall>k \<le> length xs. \<exists>s'. PopN k (fl', m') = Inr (take k (rev xs), s') \<and>
           (Empty (fst s') \<longleftrightarrow> k = length xs)"
  proof (intro allI impI)
    fix k assume k: "k \<le> length xs"
    then have "k \<le> length (rev xs @ [])" by simp
    from PopN_lseg [OF l this] obtain fl'' where
      q: "PopN k (fl', m') = Inr (take k (rev xs), (fl'', m'))"
      and l': "lseg m' (fl_head fl'') (drop k (rev xs))" by auto
    have "Empty fl'' \<longleftrightarrow> k = length xs" using lseg_Empty [OF l'] k by auto
    then show "\<exists>s'. PopN k (fl', m') = Inr (take k (rev xs), s') \<and>
           (Empty (fst s') \<longleftrightarrow> k = length xs)" using q by simp
  qed
  then show "\<exists>s. PushAll xs (FreeList_new, m) = Inr s \<and>
       (\<forall>k \<le> length xs. \<exists>s'. PopN k s = Inr (take k (rev xs), s') \<and>
           (Empty (fst s') \<longleftrightarrow> k = length xs))"
    using p by simp
qed

theorem FreeList_LIFO_witness:
  "distinct [5, 6, 7 :: addr] \<and> nullptr \<notin> set [5, 6, 7] \<and>
   (\<exists>s. PushAll [5, 6, 7] (FreeList_new, null_objs) = Inr s \<and> \<not> Empty (fst s) \<and>
      (\<exists>s'. PopN 3 s = Inr ([7, 6, 5], s') \<and> Empty (fst s')))"
proof -
  have d: "distinct [5, 6, 7 :: addr]" by simp
  have n: "nullptr \<notin> set [5, 6, 7]" by (simp add: nullptr_def)
  from FreeList_LIFO [OF d n, of null_objs]
  obtain s where p: "PushAll [5, 6, 7] (FreeList_new, null_objs) = Inr s"
    and a: "\<forall>k \<le> length [5, 6, 7 :: addr]. \<exists>s'. PopN k s = Inr (take k (rev [5, 6, 7]), s') \<and>
           (Empty (fst s') \<longleftrightarrow> k = length [5, 6, 7 :: addr])"
    by blast
  from a have "\<exists>s'. PopN 3 s = Inr (take 3 (rev [5, 6, 7]), s') \<and>
           (Empty (fst s') \<longleftrightarrow> (3::nat) = length [5, 6, 7 :: addr])"
    by (rule allE [where x = 3]) simp
  then have three: "\<exists>s'. PopN 3 s = Inr ([7, 6, 5], s') \<and> Empty (fst s')" by simp
  from a have "\<exists>s'. PopN 0 s = Inr (take 0 (rev [5, 6, 7]), s') \<and>
           (Empty (fst s') \<longleftrightarrow> (0::nat) = length [5, 6, 7 :: addr])"
    by (rule allE [where x = 0]) simp
  then have "\<not> Empty (fst s)" by simp
  then show ?thesis using d n p three by blast
qed

text \<open>
  \<open>Pop\<close> on the fresh, empty FreeList does not end in a failed assertion: there is no
  assertion in \<open>Pop\<close>, and the run ends in the read through \<open>nullptr\<close>.
\<close>

theorem Pop_empty_no_assert:
  "Empty FreeList_new \<and> Pop (FreeList_new, null_objs) = Inl NullDeref \<and>
   Pop (FreeList_new, null_objs) \<noteq> Inl AssertFailed"
  by (simp add: Empty_def FreeList_new_def Pop_def)

text \<open>
  C5, as the code has it.  \<open>Pop\<close> on an empty FreeList (one whose \<open>Empty()\<close> is true)
  checks nothing: it reads the link word through the null head pointer, and the run
  ends there without a returned value.
\<close>

theorem Pop_empty_null_deref:
  assumes "Empty fl"
  shows "Pop (fl, m) = Inl NullDeref"
  using assms by (simp add: Empty_def Pop_def)

theorem Pop_empty_null_deref_witness:
  "Empty FreeList_new \<and> Pop (FreeList_new, null_objs) = Inl NullDeref"
proof -
  have e: "Empty FreeList_new" by (simp add: Empty_def FreeList_new_def)
  show ?thesis using e Pop_empty_null_deref [OF e, of null_objs] by simp
qed

section \<open>Properties of SpanList\<close>

subsection \<open>Linked sequences and walks\<close>

lemma path_frame:
  assumes "\<forall>x \<in> set (butlast xs). sp_next (H' x) = sp_next (H x)"
    and "\<forall>x \<in> set (tl xs). sp_prev (H' x) = sp_prev (H x)"
  shows "path H' xs = path H xs"
  using assms by (induction H xs rule: path.induct) auto

lemma path_snoc:
  "A \<noteq> [] \<Longrightarrow>
   path H (A @ [b]) \<longleftrightarrow> path H A \<and> sp_next (H (last A)) = b \<and> sp_prev (H b) = last A"
  by (induction H A rule: path.induct) auto

lemma path_append: "path H (xs @ a # ys) \<longleftrightarrow> path H (xs @ [a]) \<and> path H (a # ys)"
  by (induction H xs rule: path.induct) auto

lemma walk_next_path:
  assumes "path H (p # xs @ [h])" and "h \<notin> set xs" and "nullptr \<notin> set xs"
  shows "walk (\<lambda>q. sp_next (H q)) h fuel (sp_next (H p)) =
           (if length xs \<le> fuel then Inr xs else Inl OutOfFuel)"
  using assms
proof (induction xs arbitrary: p fuel)
  case Nil
  then show ?case by (cases fuel) auto
next
  case (Cons x xs)
  then show ?case by (cases fuel) auto
qed

lemma walk_prev_path:
  assumes "path H (h # xs @ [q])" and "h \<notin> set xs" and "nullptr \<notin> set xs"
  shows "walk (\<lambda>p. sp_prev (H p)) h fuel (sp_prev (H q)) =
           (if length xs \<le> fuel then Inr (rev xs) else Inl OutOfFuel)"
  using assms
proof (induction xs arbitrary: q fuel rule: rev_induct)
  case Nil
  then show ?case by (cases fuel) auto
next
  case (snoc x xs)
  have "path H ((h # xs) @ x # [q])" using snoc.prems(1) by simp
  then have a: "path H (h # xs @ [x])" and b: "sp_prev (H q) = x"
    unfolding path_append [of H "h # xs" x "[q]"] by simp_all
  have "walk (\<lambda>p. sp_prev (H p)) h n (sp_prev (H x)) =
          (if length xs \<le> n then Inr (rev xs) else Inl OutOfFuel)" for n
    using a snoc.prems by (intro snoc.IH) auto
  then show ?case using b snoc.prems by (cases fuel) auto
qed

subsection \<open>Insert and Erase keep the list well linked\<close>

lemma insert_before_sentinel: "h \<notin> set L \<Longrightarrow> insert_before h n L = L @ [n]"
  by (induction L) auto

lemma insert_before_member:
  "c \<notin> set xs \<Longrightarrow> insert_before c n (xs @ c # ys) = xs @ n # c # ys"
  by (induction xs) auto

lemma remove1_member: "c \<notin> set xs \<Longrightarrow> remove1 c (xs @ c # ys) = xs @ ys"
  by (induction xs) auto

lemma Insert_path:
  assumes p: "path H (A @ cur # B)" and A: "A \<noteq> []" "distinct A"
    and n: "n \<notin> set A" "n \<noteq> cur" "n \<notin> set B" "n \<noteq> nullptr"
    and c: "cur \<notin> set (tl A)" "cur \<notin> set B" "cur \<noteq> nullptr"
    and l: "last A \<notin> set (butlast (cur # B))" "last A \<noteq> nullptr"
  shows "\<exists>H'. Insert l cur n H = Inr H' \<and> path H' (A @ n # cur # B)"
proof -
  let ?prev = "last A"
  have split: "path H (A @ [cur])" "path H (cur # B)"
    using p unfolding path_append [of H A cur B] by simp_all
  have pA: "path H A" and prev: "sp_prev (H cur) = ?prev"
    using split(1) A(1) by (simp_all add: path_snoc)
  define H1 where "H1 = H(?prev := (H ?prev)\<lparr>sp_next := n\<rparr>)"
  define H2 where "H2 = H1(n := (H1 n)\<lparr>sp_prev := ?prev\<rparr>)"
  define H3 where "H3 = H2(n := (H2 n)\<lparr>sp_next := cur\<rparr>)"
  define H4 where "H4 = H3(cur := (H3 cur)\<lparr>sp_prev := n\<rparr>)"
  have ins: "Insert l cur n H = Inr H4"
    using c(3) n(4) l(2) prev by (simp add: Insert_def Let_def H1_def H2_def H3_def H4_def)
  have pn: "?prev \<noteq> n" using n(1) A(1) by (metis last_in_set)
  have nx: "sp_next (H4 x) = (if x = n then cur else if x = ?prev then n else sp_next (H x))"
    and pv: "sp_prev (H4 x) = (if x = cur then n else if x = n then ?prev else sp_prev (H x))"
    for x
    using pn n(2) by (auto simp: H1_def H2_def H3_def H4_def)
  have lb: "?prev \<notin> set (butlast A)"
    using A by (metis append_butlast_last_id distinct_butlast disjoint_iff distinct_append list.set_intros(1))
  have nb: "n \<notin> set (butlast A)" using n(1) by (auto dest: in_set_butlastD)
  have nt: "n \<notin> set (tl A)" using n(1) A(1) by (auto dest: list.set_sel(2))
  have "path H4 A = path H A"
    using lb nb nt c(1) by (intro path_frame) (auto simp: nx pv)
  then have a: "path H4 (A @ [n])"
    using pA A(1) pn n(2) by (simp add: path_snoc nx pv)
  have "path H4 (cur # B) = path H (cur # B)"
    using l(1) n(2,3) c(2) by (intro path_frame) (auto simp: nx pv dest: in_set_butlastD)
  then have b: "path H4 (n # cur # B)"
    using split(2) n(2) by (simp add: nx pv)
  have "path H4 (A @ n # cur # B)"
    unfolding path_append [of H4 A n "cur # B"] using a b by simp
  then show ?thesis using ins by blast
qed

lemma Erase_path:
  assumes p: "path H (A @ cur # b # B)" and A: "A \<noteq> []" "distinct A"
    and c: "cur \<noteq> nullptr" "cur \<noteq> sl_head l"
    and b: "b \<notin> set (tl A)" "b \<notin> set B" "b \<noteq> nullptr"
    and l: "last A \<notin> set (butlast (b # B))" "last A \<noteq> nullptr"
  shows "\<exists>H'. Erase l cur H = Inr H' \<and> path H' (A @ b # B)"
proof -
  let ?prev = "last A"
  have split: "path H (A @ [cur])" "path H (cur # b # B)"
    using p unfolding path_append [of H A cur "b # B"] by simp_all
  have pA: "path H A" and prev: "sp_prev (H cur) = ?prev"
    using split(1) A(1) by (simp_all add: path_snoc)
  have nxt: "sp_next (H cur) = b" and pB: "path H (b # B)" using split(2) by simp_all
  define H1 where "H1 = H(?prev := (H ?prev)\<lparr>sp_next := b\<rparr>)"
  define H2 where "H2 = H1(b := (H1 b)\<lparr>sp_prev := ?prev\<rparr>)"
  have er: "Erase l cur H = Inr H2"
    using c b(3) l(2) prev nxt by (simp add: Erase_def Let_def H1_def H2_def)
  have nx: "sp_next (H2 x) = (if x = ?prev then b else sp_next (H x))"
    and pv: "sp_prev (H2 x) = (if x = b then ?prev else sp_prev (H x))" for x
    by (auto simp: H1_def H2_def)
  have lb: "?prev \<notin> set (butlast A)"
    using A by (metis append_butlast_last_id distinct_butlast disjoint_iff distinct_append list.set_intros(1))
  have "path H2 A = path H A"
    using lb b(1) by (intro path_frame) (auto simp: nx pv)
  then have a: "path H2 (A @ [b])"
    using pA A(1) by (simp add: path_snoc nx pv)
  have "path H2 (b # B) = path H (b # B)"
    using l(1) b(2) by (intro path_frame) (auto simp: nx pv)
  then have "path H2 (b # B)" using pB by simp
  then have "path H2 (A @ b # B)"
    unfolding path_append [of H2 A b B] using a by simp
  then show ?thesis using er by blast
qed

lemma Insert_well_linked:
  assumes wl: "well_linked H h L" and ok: "linked_ok h L (OpInsert cur n)"
  shows "\<exists>H'. Insert l cur n H = Inr H' \<and> well_linked H' h (insert_before cur n L)"
proof (cases "cur = h")
  case True
  have p: "path H ((h # L) @ h # [])" using wl by (simp add: well_linked_def)
  have "last (h # L) \<in> set (h # L)" by (rule last_in_set) simp
  then have ln: "last (h # L) \<noteq> nullptr" using wl by (auto simp: well_linked_def)
  have "\<exists>H'. Insert l h n H = Inr H' \<and> path H' ((h # L) @ n # h # [])"
    using p _ _ _ _ _ _ _ _ _ _ ln
    by (rule Insert_path) (use wl ok True in \<open>auto simp: well_linked_def\<close>)
  then show ?thesis
    using wl ok True by (auto simp: well_linked_def insert_before_sentinel)
next
  case False
  then have "cur \<in> set L" using ok by simp
  then obtain xs ys where L: "L = xs @ cur # ys" and cx: "cur \<notin> set xs"
    by (auto dest: split_list_first)
  have p: "path H ((h # xs) @ cur # (ys @ [h]))" using wl L by (simp add: well_linked_def)
  have "last (h # xs) \<in> set (h # xs)" by (rule last_in_set) simp
  then have lx: "last (h # xs) = h \<or> last (h # xs) \<in> set xs" by simp
  have ln: "last (h # xs) \<noteq> nullptr" using lx wl L by (auto simp: well_linked_def)
  have lb: "last (h # xs) \<notin> set (butlast (cur # ys @ [h]))"
    using lx wl L False by (auto simp: well_linked_def butlast_append)
  have "\<exists>H'. Insert l cur n H = Inr H' \<and> path H' ((h # xs) @ n # cur # (ys @ [h]))"
    using p _ _ _ _ _ _ _ _ _ lb ln
    by (rule Insert_path) (use wl ok L cx False in \<open>auto simp: well_linked_def\<close>)
  then show ?thesis
    using wl ok L cx by (auto simp: well_linked_def insert_before_member)
qed

lemma Erase_well_linked:
  assumes wl: "well_linked H h L" and ok: "linked_ok h L (OpErase cur)" and h: "sl_head l = h"
  shows "\<exists>H'. Erase l cur H = Inr H' \<and> well_linked H' h (remove1 cur L)"
proof -
  have "cur \<in> set L" using ok by simp
  then obtain xs ys where L: "L = xs @ cur # ys" and cx: "cur \<notin> set xs"
    by (auto dest: split_list_first)
  obtain b B where bB: "ys @ [h] = b # B" by (cases ys) auto
  have bs: "b \<in> set ys \<or> b = h" and Bs: "set B \<subseteq> set ys \<union> {h}" and db: "distinct (b # B)"
    using bB wl L by (cases ys; auto simp: well_linked_def)+
  have p: "path H ((h # xs) @ cur # b # B)"
    using wl L bB by (simp add: well_linked_def)
  have "last (h # xs) \<in> set (h # xs)" by (rule last_in_set) simp
  then have lx: "last (h # xs) = h \<or> last (h # xs) \<in> set xs" by simp
  have ln: "last (h # xs) \<noteq> nullptr" using lx wl L by (auto simp: well_linked_def)
  have "butlast (b # B) = ys" using bB by (metis butlast_snoc)
  then have lb: "last (h # xs) \<notin> set (butlast (b # B))"
    using lx wl L by (auto simp: well_linked_def)
  have bn: "b \<noteq> nullptr" using bs wl L by (auto simp: well_linked_def)
  have bt: "b \<notin> set (tl (h # xs))" using bs wl L by (auto simp: well_linked_def)
  have bB': "b \<notin> set B" using db by simp
  have cn: "cur \<noteq> nullptr" "cur \<noteq> sl_head l" using wl L ok h by (auto simp: well_linked_def)
  have dA: "distinct (h # xs)" using wl L by (auto simp: well_linked_def)
  have "\<exists>H'. Erase l cur H = Inr H' \<and> path H' ((h # xs) @ b # B)"
    using p _ dA cn bt bB' bn lb ln by (rule Erase_path) simp
  then have "\<exists>H'. Erase l cur H = Inr H' \<and> path H' (h # (xs @ ys) @ [h])"
    using bB by simp
  then show ?thesis
    using wl L cx by (auto simp: well_linked_def remove1_member)
qed

lemma SpanList_new_well_linked:
  assumes "p \<noteq> nullptr"
  shows "\<exists>H0. SpanList_new p H = Inr (\<lparr>sl_head = p\<rparr>, H0) \<and> well_linked H0 p []"
  using assms by (simp add: SpanList_new_def Let_def well_linked_def)

lemma run_ops_well_linked:
  assumes "well_linked H h L" and "sl_head l = h" and "linked_seq h L ops"
  shows "\<exists>H'. run_ops l ops H = Inr H' \<and> well_linked H' h (live_after L ops)"
  using assms
proof (induction ops arbitrary: H L)
  case Nil
  then show ?case by simp
next
  case (Cons a as)
  have ok: "linked_ok h L a" and rest: "linked_seq h (live_step a L) as"
    using Cons.prems(3) by simp_all
  have "\<exists>H1. apply_op l a H = Inr H1 \<and> well_linked H1 h (live_step a L)"
  proof (cases a)
    case (OpInsert cur n)
    then show ?thesis using Insert_well_linked [OF Cons.prems(1), of cur n l] ok by simp
  next
    case (OpErase cur)
    then show ?thesis
      using Erase_well_linked [OF Cons.prems(1) _ Cons.prems(2), of cur] ok by simp
  qed
  then obtain H1 where a: "apply_op l a H = Inr H1"
    and wl: "well_linked H1 h (live_step a L)" by blast
  from Cons.IH [OF wl Cons.prems(2) rest] obtain H' where
    "run_ops l as H1 = Inr H'" and "well_linked H' h (live_after (live_step a L) as)"
    by blast
  then show ?case using a by simp
qed

lemma well_linked_observed:
  assumes wl: "well_linked H h L" and h: "sl_head l = h"
  shows "traverse_next l H fuel = (if length L \<le> fuel then Inr L else Inl OutOfFuel)"
    and "traverse_prev l H fuel = (if length L \<le> fuel then Inr (rev L) else Inl OutOfFuel)"
    and "SpanList_Empty l H \<longleftrightarrow> L = []"
    and "SpanList_Empty l H \<longleftrightarrow> sp_next (H (End l)) = End l \<and> sp_prev (H (End l)) = End l"
proof -
  have p: "path H (h # L @ [h])" and hn: "h \<notin> set L" and nn: "nullptr \<notin> set L"
    using wl by (simp_all add: well_linked_def)
  show "traverse_next l H fuel = (if length L \<le> fuel then Inr L else Inl OutOfFuel)"
    unfolding traverse_next_def Begin_def End_def h by (rule walk_next_path [OF p hn nn])
  show "traverse_prev l H fuel = (if length L \<le> fuel then Inr (rev L) else Inl OutOfFuel)"
    unfolding traverse_prev_def End_def h by (rule walk_prev_path [OF p hn nn])
  have first: "sp_next (H h) = hd (L @ [h])" using p by (cases L) simp_all
  have "path H ((h # L) @ [h])" using p by simp
  then have lst: "sp_prev (H h) = last (h # L)"
    using path_snoc [of "h # L" H h] by simp
  show e: "SpanList_Empty l H \<longleftrightarrow> L = []"
    using first hn by (cases L) (auto simp: SpanList_Empty_def h)
  have "sp_prev (H h) = h \<longleftrightarrow> L = []"
    using lst hn by (cases L rule: rev_cases) auto
  then show "SpanList_Empty l H \<longleftrightarrow> sp_next (H (End l)) = End l \<and> sp_prev (H (End l)) = End l"
    using e by (auto simp: SpanList_Empty_def End_def h)
qed

subsection \<open>The list invariant\<close>

text \<open>
  With only the two stated side conditions (insert positions inside the list, no
  \<open>Erase\<close> of the sentinel) the invariant fails.  Inserting span 2 twice at \<open>End()\<close>
  leaves \<open>_prev\<close> of span 2 pointing at span 2, so the backward walk never returns to
  the sentinel.  Erasing span 2 again after spans 2 and 3 have both been erased links
  span 3 back in after the sentinel: no span is live, yet \<open>Empty()\<close> is false, the
  forward walk visits span 3 and the backward walk visits nothing.
\<close>

theorem SpanList_stated_counterexample:
  "stated_seq 1 [] [OpInsert 1 2, OpInsert 1 2] \<and>
   live_after [] [OpInsert 1 2, OpInsert 1 2] = [2, 2] \<and>
   observe 1 [OpInsert 1 2, OpInsert 1 2] zero_store 8 = Inr (Inr [2], Inl OutOfFuel, False) \<and>
   stated_seq 1 [] [OpInsert 1 2, OpInsert 1 3, OpErase 2, OpErase 3, OpErase 2] \<and>
   live_after [] [OpInsert 1 2, OpInsert 1 3, OpErase 2, OpErase 3, OpErase 2] = [] \<and>
   observe 1 [OpInsert 1 2, OpInsert 1 3, OpErase 2, OpErase 3, OpErase 2] zero_store 8
     = Inr (Inr [3], Inr [], False)"
  by code_simp

text \<open>
  C8, with the side conditions that make it hold.  Start from a freshly constructed
  SpanList and run any sequence of \<open>Insert\<close> and \<open>Erase\<close> in which every \<open>Insert\<close>
  position is inside the list (a live span or the sentinel), every inserted span is a
  non-null span other than the sentinel that is not linked into the list at that moment,
  and every erased span is a live span (so never the sentinel).  Then every operation
  succeeds; the live spans are distinct; the walk from \<open>Begin()\<close> along \<open>_next\<close> reaches
  \<open>End()\<close> exactly when its budget is at least the number of live spans, and visits the
  live spans in list order; the walk from \<open>End()\<close> along \<open>_prev\<close> visits the same spans
  in reverse order; and \<open>Empty()\<close> is true if and only if there is no live span, if and
  only if the sentinel's \<open>_next\<close> and \<open>_prev\<close> both point to the sentinel.
\<close>

theorem SpanList_invariant:
  assumes "p \<noteq> nullptr" and "linked_seq p [] ops"
  shows "\<exists>l H'. run_fresh p ops H = Inr (l, H') \<and>
     distinct (live_after [] ops) \<and> End l \<notin> set (live_after [] ops) \<and>
     (\<forall>fuel. traverse_next l H' fuel =
        (if length (live_after [] ops) \<le> fuel then Inr (live_after [] ops) else Inl OutOfFuel)) \<and>
     (\<forall>fuel. traverse_prev l H' fuel =
        (if length (live_after [] ops) \<le> fuel then Inr (rev (live_after [] ops))
         else Inl OutOfFuel)) \<and>
     (SpanList_Empty l H' \<longleftrightarrow> live_after [] ops = []) \<and>
     (SpanList_Empty l H' \<longleftrightarrow>
        sp_next (H' (End l)) = End l \<and> sp_prev (H' (End l)) = End l)"
proof -
  let ?l = "\<lparr>sl_head = p\<rparr>"
  obtain H0 where new: "SpanList_new p H = Inr (?l, H0)" and wl0: "well_linked H0 p []"
    using SpanList_new_well_linked [OF assms(1)] by blast
  have h: "sl_head ?l = p" by simp
  obtain H' where run: "run_ops ?l ops H0 = Inr H'"
    and wl: "well_linked H' p (live_after [] ops)"
    using run_ops_well_linked [OF wl0 h assms(2)] by blast
  have r: "run_fresh p ops H = Inr (?l, H')" using new run by (simp add: run_fresh_def)
  have d: "distinct (live_after [] ops)" "End ?l \<notin> set (live_after [] ops)"
    using wl by (simp_all add: well_linked_def End_def)
  show ?thesis
    using r d well_linked_observed [OF wl h] by blast
qed

theorem SpanList_invariant_witness:
  "(1::addr) \<noteq> nullptr \<and>
   linked_seq 1 [] [OpInsert 1 2, OpInsert 1 3, OpInsert 3 4, OpErase 2] \<and>
   live_after [] [OpInsert 1 2, OpInsert 1 3, OpInsert 3 4, OpErase 2] = [4, 3] \<and>
   (\<exists>l H'. run_fresh 1 [OpInsert 1 2, OpInsert 1 3, OpInsert 3 4, OpErase 2] zero_store
              = Inr (l, H') \<and>
      traverse_next l H' 2 = Inr [4, 3] \<and> traverse_prev l H' 2 = Inr [3, 4] \<and>
      traverse_next l H' 1 = Inl OutOfFuel \<and> \<not> SpanList_Empty l H')"
proof -
  let ?ops = "[OpInsert 1 2, OpInsert 1 3, OpInsert 3 4, OpErase 2]"
  have a: "(1::addr) \<noteq> nullptr" by (simp add: nullptr_def)
  have b: "linked_seq 1 [] ?ops" by (simp add: nullptr_def)
  have c: "live_after [] ?ops = [4, 3]" by simp
  from SpanList_invariant [OF a b, of zero_store] obtain l H' where
    r: "run_fresh 1 ?ops zero_store = Inr (l, H')"
    and n: "\<forall>fuel. traverse_next l H' fuel =
        (if length (live_after [] ?ops) \<le> fuel then Inr (live_after [] ?ops) else Inl OutOfFuel)"
    and v: "\<forall>fuel. traverse_prev l H' fuel =
        (if length (live_after [] ?ops) \<le> fuel then Inr (rev (live_after [] ?ops))
         else Inl OutOfFuel)"
    and e: "SpanList_Empty l H' \<longleftrightarrow> live_after [] ?ops = []"
    by blast
  have "traverse_next l H' 2 = Inr [4, 3]" using n [rule_format, of 2] c by simp
  moreover have "traverse_prev l H' 2 = Inr [3, 4]" using v [rule_format, of 2] c by simp
  moreover have "traverse_next l H' 1 = Inl OutOfFuel" using n [rule_format, of 1] c by simp
  moreover have "\<not> SpanList_Empty l H'" using e c by simp
  ultimately show ?thesis using a b c r by blast
qed

subsection \<open>The frame of Erase\<close>

text \<open>
  C10.  \<open>Erase(cur)\<close>, when it runs to completion (\<open>cur\<close> is not null and not the
  sentinel, and both its neighbours are not null), writes only the predecessor's
  \<open>_next\<close> and the successor's \<open>_prev\<close>.  The erased span is unchanged as a whole, so it
  still points at its former neighbours; every span other than the two neighbours is
  unchanged; in every span \<open>_pageId\<close>, \<open>_nPage\<close>, \<open>_freeList\<close>, \<open>_useCount\<close> and
  \<open>_objSize\<close> are unchanged; \<open>_next\<close> changes at most in the predecessor and \<open>_prev\<close> at
  most in the successor, which now point at each other.
\<close>

theorem Erase_frame:
  assumes "cur \<noteq> nullptr" and "cur \<noteq> sl_head l"
    and "sp_prev (H cur) \<noteq> nullptr" and "sp_next (H cur) \<noteq> nullptr"
  shows "\<exists>H'. Erase l cur H = Inr H' \<and> H' cur = H cur \<and>
     (\<forall>p. p \<noteq> sp_prev (H cur) \<and> p \<noteq> sp_next (H cur) \<longrightarrow> H' p = H p) \<and>
     (\<forall>p. sp_pageId (H' p) = sp_pageId (H p) \<and> sp_nPage (H' p) = sp_nPage (H p) \<and>
          sp_freeList (H' p) = sp_freeList (H p) \<and> sp_useCount (H' p) = sp_useCount (H p) \<and>
          sp_objSize (H' p) = sp_objSize (H p)) \<and>
     (\<forall>p. p \<noteq> sp_prev (H cur) \<longrightarrow> sp_next (H' p) = sp_next (H p)) \<and>
     (\<forall>p. p \<noteq> sp_next (H cur) \<longrightarrow> sp_prev (H' p) = sp_prev (H p)) \<and>
     sp_next (H' (sp_prev (H cur))) = sp_next (H cur) \<and>
     sp_prev (H' (sp_next (H cur))) = sp_prev (H cur)"
  using assms by (auto simp: Erase_def Let_def)

theorem Erase_frame_witness:
  "(2::addr) \<noteq> nullptr \<and> (2::addr) \<noteq> sl_head \<lparr>sl_head = 1\<rparr> \<and>
   (\<exists>H. run_fresh 1 [OpInsert 1 2, OpInsert 1 3] zero_store = Inr (\<lparr>sl_head = 1\<rparr>, H) \<and>
      sp_prev (H 2) = 1 \<and> sp_next (H 2) = 3 \<and>
      (\<exists>H'. Erase \<lparr>sl_head = 1\<rparr> 2 H = Inr H' \<and> H' 2 = H 2 \<and>
         sp_next (H' 1) = 3 \<and> sp_prev (H' 3) = 1 \<and> sp_prev (H' 2) = 1 \<and> sp_next (H' 2) = 3))"
proof -
  let ?l = "\<lparr>sl_head = 1\<rparr>"
  obtain H where r: "run_fresh 1 [OpInsert 1 2, OpInsert 1 3] zero_store = Inr (?l, H)"
    and pv: "sp_prev (H 2) = 1" and nx: "sp_next (H 2) = 3"
    by (simp add: run_fresh_def SpanList_new_def Insert_def Let_def zero_store_def
        zero_span_def nullptr_def)
  have a: "(2::addr) \<noteq> nullptr" by (simp add: nullptr_def)
  have b: "(2::addr) \<noteq> sl_head ?l" by simp
  have c: "sp_prev (H 2) \<noteq> nullptr" "sp_next (H 2) \<noteq> nullptr"
    using pv nx by (simp_all add: nullptr_def)
  from Erase_frame [of 2 ?l H, OF a b c] obtain H' where
    "Erase ?l 2 H = Inr H'" "H' 2 = H 2"
    "sp_next (H' (sp_prev (H 2))) = sp_next (H 2)"
    "sp_prev (H' (sp_next (H 2))) = sp_prev (H 2)"
    by blast
  then have "\<exists>H'. Erase ?l 2 H = Inr H' \<and> H' 2 = H 2 \<and>
         sp_next (H' 1) = 3 \<and> sp_prev (H' 3) = 1 \<and> sp_prev (H' 2) = 1 \<and> sp_next (H' 2) = 3"
    using pv nx by auto
  then show ?thesis using a b r pv nx by blast
qed

end
